theory Spec2Isabelle
  imports Main
begin

section \<open>Data model of the Nimiq mempool\<close>

text \<open>
  The embedding follows \<^verbatim>\<open>src/main/generic/consensus/base/mempool/Mempool.js\<close>.
  Hashes, public keys, addresses and signatures are opaque values that the mempool only
  compares and stores: they are the type parameters \<open>'h\<close>, \<open>'k\<close>, \<open>'a\<close> and \<open>'s\<close>.
  Amounts and nonces are JavaScript numbers holding non-negative integers, in the range
  where such numbers are exact; they are modelled as \<open>nat\<close>.
\<close>

record ('k, 'a, 's) transaction =
  senderPubKey :: 'k
  recipientAddr :: 'a
  tx_value :: nat
  fee :: nat
  nonce :: nat
  signature :: 's

text \<open>The \<^verbatim>\<open>Balance\<close> object returned by \<^verbatim>\<open>Accounts.getBalance\<close>: fields \<^verbatim>\<open>value\<close> and \<^verbatim>\<open>nonce\<close>.\<close>

record balance =
  balance_value :: nat
  balance_nonce :: nat

text \<open>
  The accounts state of the blockchain, read through \<^verbatim>\<open>this._accounts.getBalance(addr)\<close>.
  It changes with the head of the chain, so every operation takes the accounts state it
  runs against.
\<close>

type_synonym 'a accounts = "'a \<Rightarrow> balance"

text \<open>
  The methods of \<^verbatim>\<open>Transaction\<close> that the mempool calls. The class is not part of the
  sources at hand, so the three methods are parameters of the model: each is a
  deterministic function of the (immutable) transaction.
\<close>

record ('h, 'k, 'a, 's) env =
  hash :: "('k, 'a, 's) transaction \<Rightarrow> 'h"
  verifySignature :: "('k, 'a, 's) transaction \<Rightarrow> bool"
  getSenderAddr :: "('k, 'a, 's) transaction \<Rightarrow> 'a"

subsection \<open>HashMap and HashSet\<close>

text \<open>
  Modelled from the spec: the \<^verbatim>\<open>HashMap\<close> class is missing from the sources. The spec
  describes \<open>byIdentity\<close> as a mapping from identity to transaction with map semantics,
  iterated in insertion order. It is an association list: \<open>put\<close> overwrites the entry of
  a key that is present and appends a new key at the end, \<open>remove\<close> drops the key.
\<close>

type_synonym ('x, 'v) hashmap = "('x \<times> 'v) list"

definition HashMap_contains :: "('x, 'v) hashmap \<Rightarrow> 'x \<Rightarrow> bool" where
  "HashMap_contains m k = (k \<in> set (map fst m))"

definition HashMap_get :: "('x, 'v) hashmap \<Rightarrow> 'x \<Rightarrow> 'v option" where
  "HashMap_get m k = map_of m k"

primrec HashMap_put :: "('x, 'v) hashmap \<Rightarrow> 'x \<Rightarrow> 'v \<Rightarrow> ('x, 'v) hashmap" where
  "HashMap_put [] k v = [(k, v)]"
| "HashMap_put (e # m) k v = (if fst e = k then (k, v) # m else e # HashMap_put m k v)"

definition HashMap_remove :: "('x, 'v) hashmap \<Rightarrow> 'x \<Rightarrow> ('x, 'v) hashmap" where
  "HashMap_remove m k = filter (\<lambda>e. fst e \<noteq> k) m"

definition HashMap_keys :: "('x, 'v) hashmap \<Rightarrow> 'x list" where
  "HashMap_keys m = map fst m"

definition HashMap_values :: "('x, 'v) hashmap \<Rightarrow> 'v list" where
  "HashMap_values m = map snd m"

text \<open>
  Modelled from the spec: the \<^verbatim>\<open>HashSet\<close> class is missing from the sources. The spec
  describes \<open>activeSenders\<close> as a set of sender public keys; the mempool only adds,
  removes and tests membership.
\<close>

definition HashSet_contains :: "'x set \<Rightarrow> 'x \<Rightarrow> bool" where
  "HashSet_contains S x = (x \<in> S)"

definition HashSet_add :: "'x set \<Rightarrow> 'x \<Rightarrow> 'x set" where
  "HashSet_add S x = insert x S"

definition HashSet_remove :: "'x set \<Rightarrow> 'x \<Rightarrow> 'x set" where
  "HashSet_remove S x = S - {x}"

subsection \<open>The state of a Mempool object\<close>

text \<open>
  Events fired through \<^verbatim>\<open>Observable.fire\<close>. The source names them \<^verbatim>\<open>transaction-added\<close>
  (the spec's \<open>transaction-admitted\<close>) and \<^verbatim>\<open>transactions-ready\<close> (the spec's
  \<open>pool-updated\<close>).
\<close>

datatype ('k, 'a, 's) event =
  TransactionAdded "('k, 'a, 's) transaction"
| TransactionsReady

text \<open>The messages written with \<^verbatim>\<open>Log.v\<close> and \<^verbatim>\<open>Log.w\<close>, one per rejection path.\<close>

datatype log_level = Verbose | Warning

datatype log_message =
  IgnoringKnownTransaction
| InvalidSignature
| SenderAndRecipientCoincide
| InsufficientFunds
| InvalidNonce
| DuplicateSenderPublicKey

record ('h, 'k, 'a, 's) mempool =
  transactions :: "('h, ('k, 'a, 's) transaction) hashmap"
  senderPubKeys :: "'k set"
  fired :: "('k, 'a, 's) event list"
  logged :: "(log_level \<times> log_message) list"

definition new_Mempool :: "('h, 'k, 'a, 's) mempool" where
  "new_Mempool = \<lparr>transactions = [], senderPubKeys = {}, fired = [], logged = []\<rparr>"

definition fire ::
  "('k, 'a, 's) event \<Rightarrow> ('h, 'k, 'a, 's) mempool \<Rightarrow> ('h, 'k, 'a, 's) mempool" where
  "fire e s = s\<lparr>fired := fired s @ [e]\<rparr>"

definition Log_v ::
  "log_message \<Rightarrow> ('h, 'k, 'a, 's) mempool \<Rightarrow> ('h, 'k, 'a, 's) mempool" where
  "Log_v msg s = s\<lparr>logged := logged s @ [(Verbose, msg)]\<rparr>"

definition Log_w ::
  "log_message \<Rightarrow> ('h, 'k, 'a, 's) mempool \<Rightarrow> ('h, 'k, 'a, 's) mempool" where
  "Log_w msg s = s\<lparr>logged := logged s @ [(Warning, msg)]\<rparr>"

section \<open>The operations of Mempool\<close>

text \<open>
  Every method takes the state of the object and returns its result with the state it
  leaves. The methods are \<^verbatim>\<open>async\<close>; the functions of this section are the methods
  run with nothing else in between. What happens when calls overlap is modelled further
  down: the steps of an eviction sweep in flight, and a node on which several sweeps are
  in flight while transactions are submitted.
\<close>

definition verifyTransactionBalance ::
  "('h, 'k, 'a, 's) env \<Rightarrow> 'a accounts \<Rightarrow> ('k, 'a, 's) transaction \<Rightarrow> bool \<Rightarrow>
   ('h, 'k, 'a, 's) mempool \<Rightarrow> bool \<times> ('h, 'k, 'a, 's) mempool" where
  "verifyTransactionBalance E accounts transaction quiet s =
     (let senderAddr = getSenderAddr E transaction;
          senderBalance = accounts senderAddr
      in if balance_value senderBalance < tx_value transaction + fee transaction
         then (False, if \<not> quiet then Log_w InsufficientFunds s else s)
         else if balance_nonce senderBalance \<noteq> nonce transaction
         then (False, if \<not> quiet then Log_w InvalidNonce s else s)
         else (True, s))"

definition verifyTransaction ::
  "('h, 'k, 'a, 's) env \<Rightarrow> 'a accounts \<Rightarrow> ('k, 'a, 's) transaction \<Rightarrow>
   ('h, 'k, 'a, 's) mempool \<Rightarrow> bool \<times> ('h, 'k, 'a, 's) mempool" where
  "verifyTransaction E accounts transaction s =
     (if \<not> verifySignature E transaction
      then (False, Log_w InvalidSignature s)
      else let senderAddr = getSenderAddr E transaction
           in if recipientAddr transaction = senderAddr
              then (False, Log_w SenderAndRecipientCoincide s)
              else verifyTransactionBalance E accounts transaction False s)"

definition pushTransaction ::
  "('h, 'k, 'a, 's) env \<Rightarrow> 'a accounts \<Rightarrow> ('k, 'a, 's) transaction \<Rightarrow>
   ('h, 'k, 'a, 's) mempool \<Rightarrow> bool \<times> ('h, 'k, 'a, 's) mempool" where
  "pushTransaction E accounts transaction s =
     (let h = hash E transaction
      in if HashMap_contains (transactions s) h
         then (False, Log_v IgnoringKnownTransaction s)
         else case verifyTransaction E accounts transaction s of
                (False, s1) \<Rightarrow> (False, s1)
              | (True, s1) \<Rightarrow>
                  if HashSet_contains (senderPubKeys s1) (senderPubKey transaction)
                  then (False, Log_w DuplicateSenderPublicKey s1)
                  else let s2 = s1\<lparr>senderPubKeys :=
                                     HashSet_add (senderPubKeys s1) (senderPubKey transaction)\<rparr>;
                           s3 = s2\<lparr>transactions := HashMap_put (transactions s2) h transaction\<rparr>
                       in (True, fire (TransactionAdded transaction) s3))"

definition getTransaction ::
  "'h \<Rightarrow> ('h, 'k, 'a, 's) mempool \<Rightarrow>
   ('k, 'a, 's) transaction option \<times> ('h, 'k, 'a, 's) mempool" where
  "getTransaction h s = (HashMap_get (transactions s) h, s)"

text \<open>
  The loop of \<^verbatim>\<open>getTransactions\<close>: it walks the values of the map and breaks as soon as
  the result holds \<open>maxCount\<close> transactions. \<open>maxCount\<close> is a count, a \<open>nat\<close>.
\<close>

fun getTransactions_loop :: "nat \<Rightarrow> 'v list \<Rightarrow> 'v list \<Rightarrow> 'v list" where
  "getTransactions_loop maxCount [] acc = acc"
| "getTransactions_loop maxCount (t # ts) acc =
     (if length acc \<ge> maxCount then acc
      else getTransactions_loop maxCount ts (acc @ [t]))"

definition getTransactions ::
  "nat \<Rightarrow> ('h, 'k, 'a, 's) mempool \<Rightarrow>
   ('k, 'a, 's) transaction list \<times> ('h, 'k, 'a, 's) mempool" where
  "getTransactions maxCount s =
     (getTransactions_loop maxCount (HashMap_values (transactions s)) [], s)"

text \<open>
  The eviction sweep. The \<^verbatim>\<open>for\<close> loop of \<^verbatim>\<open>_evictTransactions\<close> runs synchronously over
  the keys and reads each transaction with \<^verbatim>\<open>get\<close> before any continuation runs:
  \<open>issued_checks\<close> is the list of checks it starts. A key of the map always has a value,
  so the \<open>None\<close> branch is never taken.
\<close>

definition issued_checks ::
  "('h, 'k, 'a, 's) mempool \<Rightarrow> ('h \<times> ('k, 'a, 's) transaction) list" where
  "issued_checks s =
     concat (map (\<lambda>h. case HashMap_get (transactions s) h of
                        None \<Rightarrow> []
                      | Some transaction \<Rightarrow> [(h, transaction)])
                 (HashMap_keys (transactions s)))"

text \<open>The continuation \<^verbatim>\<open>isValid => { if (!isValid) { ... } }\<close> attached to one check.\<close>

definition evict_callback ::
  "'h \<Rightarrow> ('k, 'a, 's) transaction \<Rightarrow> bool \<Rightarrow>
   ('h, 'k, 'a, 's) mempool \<Rightarrow> ('h, 'k, 'a, 's) mempool" where
  "evict_callback h transaction isValid s =
     (if \<not> isValid
      then let s1 = s\<lparr>transactions := HashMap_remove (transactions s) h\<rparr>
           in s1\<lparr>senderPubKeys := HashSet_remove (senderPubKeys s1) (senderPubKey transaction)\<rparr>
      else s)"

text \<open>Run to completion: every check with its continuation, in the order of issue.\<close>

fun evict_loop ::
  "('h, 'k, 'a, 's) env \<Rightarrow> 'a accounts \<Rightarrow> ('h \<times> ('k, 'a, 's) transaction) list \<Rightarrow>
   ('h, 'k, 'a, 's) mempool \<Rightarrow> ('h, 'k, 'a, 's) mempool" where
  "evict_loop E accounts [] s = s"
| "evict_loop E accounts ((h, transaction) # rest) s =
     (case verifyTransactionBalance E accounts transaction True s of
        (isValid, s1) \<Rightarrow> evict_loop E accounts rest (evict_callback h transaction isValid s1))"

definition evictTransactions ::
  "('h, 'k, 'a, 's) env \<Rightarrow> 'a accounts \<Rightarrow>
   ('h, 'k, 'a, 's) mempool \<Rightarrow> ('h, 'k, 'a, 's) mempool" where
  "evictTransactions E accounts s =
     fire TransactionsReady (evict_loop E accounts (issued_checks s) s)"

section \<open>Repeated submissions\<close>

text \<open>
  Submissions of the same transaction one after the other, with nothing in between: one
  per accounts state of the list, each against that state. The results in order, and the
  state left.
\<close>

fun submit_each ::
  "('h, 'k, 'a, 's) env \<Rightarrow> ('k, 'a, 's) transaction \<Rightarrow> 'a accounts list \<Rightarrow>
   ('h, 'k, 'a, 's) mempool \<Rightarrow> bool list \<times> ('h, 'k, 'a, 's) mempool" where
  "submit_each E transaction [] s = ([], s)"
| "submit_each E transaction (accounts # rest) s =
     (case pushTransaction E accounts transaction s of
        (r, s1) \<Rightarrow> (case submit_each E transaction rest s1 of
                      (rs, s2) \<Rightarrow> (r # rs, s2)))"

section \<open>The specification's reading of admission and eviction\<close>

text \<open>
  The admission pipeline as the specification words it: six checks in a fixed order, the
  first failing one rejects. These definitions follow the specification; the theorems
  compare them with \<open>pushTransaction\<close>.
\<close>

datatype admission_check =
  IdentityIsNew
| SignatureIsValid
| SenderIsNotRecipient
| BalanceCoversValueAndFee
| SequenceNumberMatches
| SenderIsNotActive

definition admission_pipeline :: "admission_check list" where
  "admission_pipeline =
     [IdentityIsNew, SignatureIsValid, SenderIsNotRecipient, BalanceCoversValueAndFee,
      SequenceNumberMatches, SenderIsNotActive]"

fun check_passes ::
  "('h, 'k, 'a, 's) env \<Rightarrow> 'a accounts \<Rightarrow> ('h, 'k, 'a, 's) mempool \<Rightarrow>
   ('k, 'a, 's) transaction \<Rightarrow> admission_check \<Rightarrow> bool" where
  "check_passes E accounts s t IdentityIsNew = (hash E t \<notin> set (map fst (transactions s)))"
| "check_passes E accounts s t SignatureIsValid = verifySignature E t"
| "check_passes E accounts s t SenderIsNotRecipient = (getSenderAddr E t \<noteq> recipientAddr t)"
| "check_passes E accounts s t BalanceCoversValueAndFee =
     (balance_value (accounts (getSenderAddr E t)) \<ge> tx_value t + fee t)"
| "check_passes E accounts s t SequenceNumberMatches =
     (balance_nonce (accounts (getSenderAddr E t)) = nonce t)"
| "check_passes E accounts s t SenderIsNotActive = (senderPubKey t \<notin> senderPubKeys s)"

fun rejection_log :: "admission_check \<Rightarrow> log_level \<times> log_message" where
  "rejection_log IdentityIsNew = (Verbose, IgnoringKnownTransaction)"
| "rejection_log SignatureIsValid = (Warning, InvalidSignature)"
| "rejection_log SenderIsNotRecipient = (Warning, SenderAndRecipientCoincide)"
| "rejection_log BalanceCoversValueAndFee = (Warning, InsufficientFunds)"
| "rejection_log SequenceNumberMatches = (Warning, InvalidNonce)"
| "rejection_log SenderIsNotActive = (Warning, DuplicateSenderPublicKey)"

definition spec_submit ::
  "('h, 'k, 'a, 's) env \<Rightarrow> 'a accounts \<Rightarrow> ('k, 'a, 's) transaction \<Rightarrow>
   ('h, 'k, 'a, 's) mempool \<Rightarrow> bool \<times> ('h, 'k, 'a, 's) mempool" where
  "spec_submit E accounts t s =
     (case find (\<lambda>c. \<not> check_passes E accounts s t c) admission_pipeline of
        Some c \<Rightarrow> (False, s\<lparr>logged := logged s @ [rejection_log c]\<rparr>)
      | None \<Rightarrow>
          (True, s\<lparr>transactions := transactions s @ [(hash E t, t)],
                   senderPubKeys := insert (senderPubKey t) (senderPubKeys s),
                   fired := fired s @ [TransactionAdded t]\<rparr>))"

text \<open>
  A pooled transaction is invalidated by the ledger when the sender's balance is below
  value plus fee, or the sender's nonce differs from the transaction's.
\<close>

definition invalidated ::
  "('h, 'k, 'a, 's) env \<Rightarrow> 'a accounts \<Rightarrow> ('k, 'a, 's) transaction \<Rightarrow> bool" where
  "invalidated E accounts t =
     (balance_value (accounts (getSenderAddr E t)) < tx_value t + fee t
      \<or> balance_nonce (accounts (getSenderAddr E t)) \<noteq> nonce t)"

text \<open>A HashMap never holds a key twice: the well-formed states of the pool.\<close>

definition wellformed :: "('h, 'k, 'a, 's) mempool \<Rightarrow> bool" where
  "wellformed s = distinct (HashMap_keys (transactions s))"

text \<open>
  The invariant of the pool that the reachable states keep: keys are distinct, no two
  pooled transactions have the same sender key, and the set of sender keys is exactly the
  set of the pooled transactions' senders.
\<close>

definition pool_invariant :: "('h, 'k, 'a, 's) mempool \<Rightarrow> bool" where
  "pool_invariant s =
     (wellformed s
      \<and> distinct (map (senderPubKey \<circ> snd) (transactions s))
      \<and> senderPubKeys s = set (map (senderPubKey \<circ> snd) (transactions s)))"

section \<open>The eviction sweep, step by step\<close>

text \<open>
  \<^verbatim>\<open>_evictTransactions\<close> starts one \<^verbatim>\<open>_verifyTransactionBalance(transaction, true)\<close> per pooled
  transaction and attaches the removing continuation to each with \<^verbatim>\<open>.then\<close>; it awaits
  \<^verbatim>\<open>Promise.all\<close> of the continuations and then fires \<^verbatim>\<open>transactions-ready\<close>. A check
  awaits \<^verbatim>\<open>getBalance\<close>, so the checks may resolve in any order; the continuation of a
  resolved check is a job of its own, run in the order of resolution. A configuration of
  a sweep in flight holds the checks whose outcome is not known yet (\<open>pending\<close>), the
  outcomes whose continuation has not run yet (\<open>resolved\<close>), whether the event has been
  fired (\<open>finished\<close>), and the state of the pool. The accounts state is the same for the
  whole sweep.
\<close>

record ('h, 'k, 'a, 's) sweep =
  pending :: "('h \<times> ('k, 'a, 's) transaction) list"
  resolved :: "('h \<times> ('k, 'a, 's) transaction \<times> bool) list"
  finished :: bool
  pool :: "('h, 'k, 'a, 's) mempool"

text \<open>
  What can happen next: the \<open>i\<close>-th pending check resolves; the continuation of the
  oldest resolved check runs; or, with nothing left, the sweep fires its event.
\<close>

datatype sweep_action = Resolve nat | Continue | Finish

definition sweep_start :: "('h, 'k, 'a, 's) mempool \<Rightarrow> ('h, 'k, 'a, 's) sweep" where
  "sweep_start s = \<lparr>pending = issued_checks s, resolved = [], finished = False, pool = s\<rparr>"

fun sweep_step ::
  "('h, 'k, 'a, 's) env \<Rightarrow> 'a accounts \<Rightarrow> sweep_action \<Rightarrow>
   ('h, 'k, 'a, 's) sweep \<Rightarrow> ('h, 'k, 'a, 's) sweep option" where
  "sweep_step E accounts (Resolve i) c =
     (if i < length (pending c)
      then case pending c ! i of
             (h, transaction) \<Rightarrow>
               (case verifyTransactionBalance E accounts transaction True (pool c) of
                  (isValid, p1) \<Rightarrow>
                    Some (c\<lparr>pending := take i (pending c) @ drop (Suc i) (pending c),
                            resolved := resolved c @ [(h, transaction, isValid)],
                            pool := p1\<rparr>))
      else None)"
| "sweep_step E accounts Continue c =
     (case resolved c of
        [] \<Rightarrow> None
      | (h, transaction, isValid) # rest \<Rightarrow>
          Some (c\<lparr>resolved := rest,
                  pool := evict_callback h transaction isValid (pool c)\<rparr>))"
| "sweep_step E accounts Finish c =
     (if pending c = [] \<and> resolved c = [] \<and> \<not> finished c
      then Some (c\<lparr>finished := True, pool := fire TransactionsReady (pool c)\<rparr>)
      else None)"

fun sweep_run ::
  "('h, 'k, 'a, 's) env \<Rightarrow> 'a accounts \<Rightarrow> sweep_action list \<Rightarrow>
   ('h, 'k, 'a, 's) sweep \<Rightarrow> ('h, 'k, 'a, 's) sweep option" where
  "sweep_run E accounts [] c = Some c"
| "sweep_run E accounts (a # as) c =
     (case sweep_step E accounts a c of
        None \<Rightarrow> None
      | Some c1 \<Rightarrow> sweep_run E accounts as c1)"

text \<open>The keys of the transactions whose continuation has not run yet.\<close>

definition awaiting :: "('h, 'k, 'a, 's) sweep \<Rightarrow> 'h set" where
  "awaiting c = set (map fst (pending c)) \<union> set (map fst (resolved c))"

text \<open>
  The schedule that resolves the checks in the order of issue, then runs the
  continuations, then fires the event.
\<close>

definition in_order_schedule :: "('h, 'k, 'a, 's) mempool \<Rightarrow> sweep_action list" where
  "in_order_schedule s =
     replicate (length (issued_checks s)) (Resolve 0)
     @ replicate (length (issued_checks s)) Continue @ [Finish]"

text \<open>
  The specification's reading of the sweep: in every configuration a sweep can reach,
  as long as the outcome of some check is not known, the pool's map and set are still
  what they were when the sweep started.
\<close>

definition removals_wait_for_all_checks ::
  "('h, 'k, 'a, 's) env \<Rightarrow> 'a accounts \<Rightarrow> ('h, 'k, 'a, 's) mempool \<Rightarrow> bool" where
  "removals_wait_for_all_checks E accounts s =
     (\<forall>schedule c. sweep_run E accounts schedule (sweep_start s) = Some c \<longrightarrow>
        pending c \<noteq> [] \<longrightarrow>
        transactions (pool c) = transactions s \<and> senderPubKeys (pool c) = senderPubKeys s)"

text \<open>
  What holds of every configuration of a sweep started in state \<open>s\<close>: the checks in
  flight are distinct entries of the pool as it was, a resolved outcome is the outcome of
  the balance check, and the pool has lost exactly the invalidated transactions whose
  continuation has run.
\<close>

definition sweep_invariant ::
  "('h, 'k, 'a, 's) env \<Rightarrow> 'a accounts \<Rightarrow> ('h, 'k, 'a, 's) mempool \<Rightarrow>
   ('h, 'k, 'a, 's) sweep \<Rightarrow> bool" where
  "sweep_invariant E accounts s c =
     (distinct (map fst (pending c) @ map fst (resolved c))
      \<and> set (pending c) \<subseteq> set (transactions s)
      \<and> (\<forall>r \<in> set (resolved c).
            (fst r, fst (snd r)) \<in> set (transactions s)
            \<and> snd (snd r) = (\<not> invalidated E accounts (fst (snd r))))
      \<and> transactions (pool c) =
          filter (\<lambda>e. fst e \<in> awaiting c \<or> \<not> invalidated E accounts (snd e))
            (transactions s)
      \<and> senderPubKeys (pool c) =
          senderPubKeys s -
          senderPubKey ` snd ` {e \<in> set (transactions s).
                                 fst e \<notin> awaiting c \<and> invalidated E accounts (snd e)}
      \<and> fired (pool c) = fired s @ (if finished c then [TransactionsReady] else [])
      \<and> logged (pool c) = logged s
      \<and> (finished c \<longrightarrow> pending c = [] \<and> resolved c = []))"

section \<open>The node: submissions and sweeps in flight\<close>

text \<open>
  The constructor subscribes \<^verbatim>\<open>() => this._evictTransactions()\<close> to \<^verbatim>\<open>head-changed\<close>:
  the sweep is started and nobody waits for it. From then on it is in flight: its checks
  resolve and its continuations run one at a time, between whatever else happens, and a
  further head change starts a further sweep on the same pool. A node is the pool with
  the sweeps in flight; each of them holds what a \<open>sweep\<close> configuration holds, but for
  the pool, which they share.
\<close>

record ('h, 'k, 'a, 's) sweep_task =
  task_pending :: "('h \<times> ('k, 'a, 's) transaction) list"
  task_resolved :: "('h \<times> ('k, 'a, 's) transaction \<times> bool) list"
  task_finished :: bool

record ('h, 'k, 'a, 's) node =
  mempool_state :: "('h, 'k, 'a, 's) mempool"
  inflight :: "('h, 'k, 'a, 's) sweep_task list"

definition new_node :: "('h, 'k, 'a, 's) node" where
  "new_node = \<lparr>mempool_state = new_Mempool, inflight = []\<rparr>"

text \<open>A task with the pool of the moment is a sweep configuration, and back.\<close>

definition resume ::
  "('h, 'k, 'a, 's) sweep_task \<Rightarrow> ('h, 'k, 'a, 's) mempool \<Rightarrow> ('h, 'k, 'a, 's) sweep" where
  "resume k s =
     \<lparr>pending = task_pending k, resolved = task_resolved k, finished = task_finished k,
      pool = s\<rparr>"

definition suspend :: "('h, 'k, 'a, 's) sweep \<Rightarrow> ('h, 'k, 'a, 's) sweep_task" where
  "suspend c =
     \<lparr>task_pending = pending c, task_resolved = resolved c, task_finished = finished c\<rparr>"

text \<open>
  What happens on a node, one step at a time. \<open>Submit\<close> is a call of \<^verbatim>\<open>pushTransaction\<close>
  whose awaited calls resolve before anything else happens, against the accounts state it
  reads. \<open>HeadChanged\<close> starts a sweep: the loop of \<^verbatim>\<open>_evictTransactions\<close> issues one check
  per pooled transaction and the sweep is in flight. \<open>SweepProgress i\<close> lets the \<open>i\<close>-th
  sweep in flight take one step of \<open>sweep_step\<close> on the pool as it is now; a check that
  resolves reads the accounts state of that moment. A step that is not possible leaves
  the node as it is. \<open>Lookup\<close> and \<open>Listing\<close> are the two reads.
\<close>

datatype ('h, 'k, 'a, 's) operation =
  Submit "'a accounts" "('k, 'a, 's) transaction"
| HeadChanged
| SweepProgress nat "'a accounts" sweep_action
| Lookup 'h
| Listing nat

fun apply_operation ::
  "('h, 'k, 'a, 's) env \<Rightarrow> ('h, 'k, 'a, 's) operation \<Rightarrow>
   ('h, 'k, 'a, 's) node \<Rightarrow> ('h, 'k, 'a, 's) node" where
  "apply_operation E (Submit accounts transaction) S =
     S\<lparr>mempool_state := snd (pushTransaction E accounts transaction (mempool_state S))\<rparr>"
| "apply_operation E HeadChanged S =
     S\<lparr>inflight := inflight S @ [suspend (sweep_start (mempool_state S))]\<rparr>"
| "apply_operation E (SweepProgress i accounts a) S =
     (if i < length (inflight S)
      then case sweep_step E accounts a (resume (inflight S ! i) (mempool_state S)) of
             None \<Rightarrow> S
           | Some c \<Rightarrow> S\<lparr>mempool_state := pool c, inflight := (inflight S)[i := suspend c]\<rparr>
      else S)"
| "apply_operation E (Lookup h) S =
     S\<lparr>mempool_state := snd (getTransaction h (mempool_state S))\<rparr>"
| "apply_operation E (Listing maxCount) S =
     S\<lparr>mempool_state := snd (getTransactions maxCount (mempool_state S))\<rparr>"

fun run ::
  "('h, 'k, 'a, 's) env \<Rightarrow> ('h, 'k, 'a, 's) operation list \<Rightarrow>
   ('h, 'k, 'a, 's) node \<Rightarrow> ('h, 'k, 'a, 's) node" where
  "run E [] S = S"
| "run E (op # ops) S = run E ops (apply_operation E op S)"

text \<open>
  A mutating operation is a submission that is admitted, or an eviction sweep, be it
  its start or a step of it; \<open>no_mutation\<close> says that none of the operations of a
  sequence is one, each judged in the state it runs in.
\<close>

fun mutating ::
  "('h, 'k, 'a, 's) env \<Rightarrow> ('h, 'k, 'a, 's) operation \<Rightarrow>
   ('h, 'k, 'a, 's) node \<Rightarrow> bool" where
  "mutating E (Submit accounts transaction) S =
     fst (pushTransaction E accounts transaction (mempool_state S))"
| "mutating E HeadChanged S = True"
| "mutating E (SweepProgress i accounts a) S = True"
| "mutating E (Lookup h) S = False"
| "mutating E (Listing maxCount) S = False"

fun no_mutation ::
  "('h, 'k, 'a, 's) env \<Rightarrow> ('h, 'k, 'a, 's) operation list \<Rightarrow>
   ('h, 'k, 'a, 's) node \<Rightarrow> bool" where
  "no_mutation E [] S = True"
| "no_mutation E (op # ops) S =
     (\<not> mutating E op S \<and> no_mutation E ops (apply_operation E op S))"

section \<open>Example data\<close>

text \<open>
  A small instance with numbers for hashes, keys, addresses and signatures: the address of
  a key \<open>k\<close> is \<open>k + 100\<close>, a signature is valid when it equals the sender's key, and the
  hash of a transaction is built from sender and nonce.
\<close>

definition E0 :: "(nat, nat, nat, nat) env" where
  "E0 = \<lparr>hash = (\<lambda>t. 1000 * senderPubKey t + nonce t),
         verifySignature = (\<lambda>t. signature t = senderPubKey t),
         getSenderAddr = (\<lambda>t. senderPubKey t + 100)\<rparr>"

definition T1 :: "(nat, nat, nat) transaction" where
  "T1 = \<lparr>senderPubKey = 1, recipientAddr = 102, tx_value = 10, fee = 1, nonce = 5,
         signature = 1\<rparr>"

definition T2 :: "(nat, nat, nat) transaction" where
  "T2 = \<lparr>senderPubKey = 2, recipientAddr = 101, tx_value = 20, fee = 2, nonce = 3,
         signature = 2\<rparr>"

definition T3 :: "(nat, nat, nat) transaction" where
  "T3 = \<lparr>senderPubKey = 3, recipientAddr = 101, tx_value = 5, fee = 0, nonce = 0,
         signature = 9\<rparr>"

text \<open>Every account holds 50; account 101 expects nonce 5 and account 102 nonce 3.\<close>

definition A0 :: "nat accounts" where
  "A0 = (\<lambda>a. \<lparr>balance_value = 50,
               balance_nonce = (if a = 101 then 5 else if a = 102 then 3 else 0)\<rparr>)"

text \<open>The ledger after a block that includes \<open>T1\<close>: account 101 now expects nonce 6.\<close>

definition A1 :: "nat accounts" where
  "A1 = (\<lambda>a. \<lparr>balance_value = (if a = 101 then 39 else 50),
               balance_nonce = (if a = 101 then 6 else if a = 102 then 3 else 0)\<rparr>)"

text \<open>The ledger before account 101 is funded: it holds 5, less than \<open>T1\<close> spends.\<close>

definition A_poor :: "nat accounts" where
  "A_poor = (\<lambda>a. \<lparr>balance_value = (if a = 101 then 5 else 50),
                   balance_nonce = (if a = 101 then 5 else if a = 102 then 3 else 0)\<rparr>)"

text \<open>The next transaction of the sender of \<open>T1\<close>, valid once \<open>T1\<close> is in a block.\<close>

definition T1_next :: "(nat, nat, nat) transaction" where
  "T1_next = \<lparr>senderPubKey = 1, recipientAddr = 102, tx_value = 10, fee = 1, nonce = 6,
              signature = 1\<rparr>"

text \<open>
  One transaction, two head changes in a row, and the sender's next transaction: \<open>T1\<close>
  is admitted; two sweeps start while it is pooled, so both hold a check of \<open>T1\<close>; the
  ledger has moved to \<open>A1\<close>; the first sweep's check resolves and its continuation evicts
  \<open>T1\<close>; \<open>T1_next\<close> is submitted and admitted; the second sweep's check of \<open>T1\<close> resolves
  and its continuation runs; both sweeps fire their event.
\<close>

definition overlapping_sweeps :: "(nat, nat, nat, nat) operation list" where
  "overlapping_sweeps =
     [Submit A0 T1, HeadChanged, HeadChanged,
      SweepProgress 0 A1 (Resolve 0), SweepProgress 0 A1 Continue,
      Submit A1 T1_next,
      SweepProgress 1 A1 (Resolve 0), SweepProgress 1 A1 Continue,
      SweepProgress 0 A1 Finish, SweepProgress 1 A1 Finish]"

text \<open>The pool holding \<open>T1\<close> and \<open>T2\<close>.\<close>

definition P12 :: "(nat, nat, nat, nat) mempool" where
  "P12 = \<lparr>transactions = [(1005, T1), (2003, T2)], senderPubKeys = {1, 2},
          fired = [TransactionAdded T1, TransactionAdded T2], logged = []\<rparr>"

section \<open>Basic facts about the operations\<close>

lemma verifyTransactionBalance_quiet:
  "verifyTransactionBalance E A t True s = (\<not> invalidated E A t, s)"
  by (simp add: verifyTransactionBalance_def invalidated_def Let_def)

lemma verifyTransactionBalance_fst:
  "fst (verifyTransactionBalance E A t q s) = (\<not> invalidated E A t)"
  by (simp add: verifyTransactionBalance_def invalidated_def Let_def)

lemma verifyTransactionBalance_pool:
  "transactions (snd (verifyTransactionBalance E A t q s)) = transactions s \<and>
   senderPubKeys (snd (verifyTransactionBalance E A t q s)) = senderPubKeys s \<and>
   fired (snd (verifyTransactionBalance E A t q s)) = fired s"
  by (simp add: verifyTransactionBalance_def Let_def Log_w_def)

lemma verifyTransaction_pool:
  "transactions (snd (verifyTransaction E A t s)) = transactions s \<and>
   senderPubKeys (snd (verifyTransaction E A t s)) = senderPubKeys s \<and>
   fired (snd (verifyTransaction E A t s)) = fired s"
  by (simp add: verifyTransaction_def Let_def Log_w_def verifyTransactionBalance_pool)

lemma HashMap_put_fresh:
  "k \<notin> set (map fst m) \<Longrightarrow> HashMap_put m k v = m @ [(k, v)]"
  by (induction m) auto

lemma HashMap_get_put: "HashMap_get (HashMap_put m k v) k = Some v"
  by (induction m) (auto simp: HashMap_get_def)

lemma pushTransaction_refines:
  "pushTransaction E A t s = spec_submit E A t s"
  by (auto simp: pushTransaction_def spec_submit_def admission_pipeline_def
      verifyTransaction_def verifyTransactionBalance_def Let_def HashMap_contains_def
      HashSet_contains_def HashSet_add_def Log_v_def Log_w_def fire_def HashMap_put_fresh
      split: prod.splits)

lemma spec_submit_accepts:
  "fst (spec_submit E A t s) = list_all (check_passes E A s t) admission_pipeline"
  by (auto simp: spec_submit_def admission_pipeline_def split: option.splits)

lemma pushTransaction_rejected:
  "\<not> fst (pushTransaction E A t s) \<Longrightarrow>
     transactions (snd (pushTransaction E A t s)) = transactions s \<and>
     senderPubKeys (snd (pushTransaction E A t s)) = senderPubKeys s \<and>
     fired (snd (pushTransaction E A t s)) = fired s"
  by (auto simp: pushTransaction_refines spec_submit_def split: option.splits)

lemma getTransactions_loop_take:
  "getTransactions_loop n ts acc = acc @ take (n - length acc) ts"
  by (induction n ts acc rule: getTransactions_loop.induct) (auto simp: take_Cons')


lemma evict_callback_simps:
  "transactions (evict_callback h t v s) =
     (if v then transactions s else filter (\<lambda>e. fst e \<noteq> h) (transactions s))"
  "senderPubKeys (evict_callback h t v s) =
     (if v then senderPubKeys s else senderPubKeys s - {senderPubKey t})"
  "fired (evict_callback h t v s) = fired s"
  "logged (evict_callback h t v s) = logged s"
  by (simp_all add: evict_callback_def HashMap_remove_def HashSet_remove_def Let_def)

lemma evict_loop_transactions:
  "transactions (evict_loop E A es s) =
     filter (\<lambda>e. \<not> (\<exists>t. (fst e, t) \<in> set es \<and> invalidated E A t)) (transactions s)"
proof (induction es arbitrary: s)
  case Nil
  then show ?case by simp
next
  case (Cons e es)
  obtain h t where e: "e = (h, t)" by (cases e)
  show ?case
    unfolding e
    by (auto simp: verifyTransactionBalance_quiet Cons.IH evict_callback_simps
        intro!: filter_cong)
qed

lemma evict_loop_senderPubKeys:
  "senderPubKeys (evict_loop E A es s) =
     senderPubKeys s - {senderPubKey t |h t. (h, t) \<in> set es \<and> invalidated E A t}"
proof (induction es arbitrary: s)
  case Nil
  then show ?case by simp
next
  case (Cons e es)
  obtain h t where e: "e = (h, t)" by (cases e)
  show ?case
    unfolding e
    by (auto simp: verifyTransactionBalance_quiet Cons.IH evict_callback_simps)
qed

lemma evict_loop_traces:
  "fired (evict_loop E A es s) = fired s \<and> logged (evict_loop E A es s) = logged s"
proof (induction es arbitrary: s)
  case Nil
  then show ?case by simp
next
  case (Cons e es)
  obtain h t where e: "e = (h, t)" by (cases e)
  show ?case
    unfolding e
    by (simp add: verifyTransactionBalance_quiet Cons.IH evict_callback_simps)
qed

lemma checks_of_entries:
  "distinct (map fst m) \<Longrightarrow> set es \<subseteq> set m \<Longrightarrow>
   concat (map (\<lambda>h. case map_of m h of None \<Rightarrow> [] | Some t \<Rightarrow> [(h, t)]) (map fst es)) = es"
  by (induction es) auto

lemma issued_checks_wellformed:
  "wellformed s \<Longrightarrow> issued_checks s = transactions s"
  using checks_of_entries [of "transactions s" "transactions s"]
  by (simp add: issued_checks_def wellformed_def HashMap_keys_def HashMap_get_def)

lemma issued_checks_subset: "set (issued_checks s) \<subseteq> set (transactions s)"
  by (auto simp: issued_checks_def HashMap_get_def HashMap_keys_def split: option.splits
      dest: map_of_SomeD [OF sym])

lemma evictTransactions_transactions:
  assumes "wellformed s"
  shows "transactions (evictTransactions E A s) =
           filter (\<lambda>e. \<not> invalidated E A (snd e)) (transactions s)"
proof -
  have d: "distinct (map fst (transactions s))"
    using assms by (simp add: wellformed_def HashMap_keys_def)
  have "(\<exists>t. (fst e, t) \<in> set (transactions s) \<and> invalidated E A t)
          \<longleftrightarrow> invalidated E A (snd e)"
    if "e \<in> set (transactions s)" for e
  proof
    assume "\<exists>t. (fst e, t) \<in> set (transactions s) \<and> invalidated E A t"
    then obtain t where t: "(fst e, t) \<in> set (transactions s)" "invalidated E A t"
      by blast
    from d t(1) that have "t = snd e"
      by (metis eq_key_imp_eq_value prod.collapse)
    with t(2) show "invalidated E A (snd e)" by simp
  next
    assume "invalidated E A (snd e)"
    with that show "\<exists>t. (fst e, t) \<in> set (transactions s) \<and> invalidated E A t"
      by (metis prod.collapse)
  qed
  then show ?thesis
    by (simp add: evictTransactions_def fire_def evict_loop_transactions
        issued_checks_wellformed [OF assms] cong: filter_cong)
qed

lemma evictTransactions_senderPubKeys:
  assumes "wellformed s"
  shows "senderPubKeys (evictTransactions E A s) =
           senderPubKeys s -
           senderPubKey ` {t \<in> set (HashMap_values (transactions s)). invalidated E A t}"
proof -
  have "{senderPubKey t |h t. (h, t) \<in> set (transactions s) \<and> invalidated E A t} =
        senderPubKey ` {t \<in> set (HashMap_values (transactions s)). invalidated E A t}"
    by (force simp: HashMap_values_def)
  then show ?thesis
    by (simp add: evictTransactions_def fire_def evict_loop_senderPubKeys
        issued_checks_wellformed [OF assms])
qed

lemma evictTransactions_fired:
  "fired (evictTransactions E A s) = fired s @ [TransactionsReady]"
  by (simp add: evictTransactions_def fire_def evict_loop_traces)


lemma wellformed_filter:
  "wellformed s \<Longrightarrow> transactions s' = filter P (transactions s) \<Longrightarrow> wellformed s'"
  by (simp add: wellformed_def HashMap_keys_def distinct_map_filter)

lemma map_of_filter_key:
  "map_of (filter (\<lambda>e. Q (fst e)) m) h = (if Q h then map_of m h else None)"
  by (induction m) auto

lemma no_mutation_pool:
  "no_mutation E ops S \<Longrightarrow>
     transactions (mempool_state (run E ops S)) = transactions (mempool_state S) \<and>
     senderPubKeys (mempool_state (run E ops S)) = senderPubKeys (mempool_state S)"
proof (induction ops arbitrary: S)
  case Nil
  then show ?case by simp
next
  case (Cons op ops)
  then have q: "\<not> mutating E op S" and r: "no_mutation E ops (apply_operation E op S)"
    by simp_all
  have "transactions (mempool_state (apply_operation E op S)) = transactions (mempool_state S) \<and>
        senderPubKeys (mempool_state (apply_operation E op S)) = senderPubKeys (mempool_state S)"
    using q by (cases op) (simp_all add: pushTransaction_rejected getTransaction_def
        getTransactions_def)
  with Cons.IH [OF r] show ?case by simp
qed

section \<open>Admission\<close>

text \<open>
  Claim C1. \<open>pushTransaction\<close> (the spec's \<open>submit\<close>) returns true exactly when the six
  checks pass: the hash is not a key of the pool, the signature verifies, the sender's
  address differs from the recipient's, the sender's balance covers value plus fee, the
  sender's nonce equals the transaction's, and the sender's key is not an active sender.
  It agrees with \<open>spec_submit\<close>, which walks the checks in that order and stops at the
  first that fails, logging its reason and nothing else; on success the transaction is
  stored under its hash, its sender's key is added, and \<open>TransactionAdded\<close> is fired.
\<close>
theorem pushTransaction_admission_pipeline:
  "pushTransaction E A t s = spec_submit E A t s \<and>
   (fst (pushTransaction E A t s) \<longleftrightarrow>
      hash E t \<notin> set (HashMap_keys (transactions s)) \<and>
      verifySignature E t \<and>
      getSenderAddr E t \<noteq> recipientAddr t \<and>
      tx_value t + fee t \<le> balance_value (A (getSenderAddr E t)) \<and>
      balance_nonce (A (getSenderAddr E t)) = nonce t \<and>
      senderPubKey t \<notin> senderPubKeys s)"
  by (simp add: pushTransaction_refines spec_submit_accepts admission_pipeline_def
      HashMap_keys_def)

theorem pushTransaction_admission_pipeline_witness:
  "pushTransaction E0 A1 T1 P12 = (False, P12\<lparr>logged := [(Verbose, IgnoringKnownTransaction)]\<rparr>) \<and>
   pushTransaction E0 A0 T3 new_Mempool =
     (False, new_Mempool\<lparr>logged := [(Warning, InvalidSignature)]\<rparr>) \<and>
   pushTransaction E0 A0 T1 new_Mempool =
     (True, \<lparr>transactions = [(1005, T1)], senderPubKeys = {1},
             fired = [TransactionAdded T1], logged = []\<rparr>)"
  using pushTransaction_admission_pipeline [of E0 A1 T1 P12]
    pushTransaction_admission_pipeline [of E0 A0 T3 new_Mempool]
    pushTransaction_admission_pipeline [of E0 A0 T1 new_Mempool]
  by (simp add: spec_submit_def admission_pipeline_def E0_def A0_def A1_def T1_def T3_def
      P12_def new_Mempool_def)

text \<open>
  Claim C4. Whenever \<open>pushTransaction\<close> returns false, for whatever reason, the map of
  transactions and the set of sender keys are what they were before the call.
\<close>
theorem pushTransaction_rejection_leaves_pool:
  "\<not> fst (pushTransaction E A t s) \<Longrightarrow>
     transactions (snd (pushTransaction E A t s)) = transactions s \<and>
     senderPubKeys (snd (pushTransaction E A t s)) = senderPubKeys s"
  by (simp add: pushTransaction_rejected)

theorem pushTransaction_rejection_leaves_pool_witness:
  "\<not> fst (pushTransaction E0 A0 T3 P12) \<and>
   transactions (snd (pushTransaction E0 A0 T3 P12)) = transactions P12 \<and>
   senderPubKeys (snd (pushTransaction E0 A0 T3 P12)) = senderPubKeys P12"
proof -
  have r: "\<not> fst (pushTransaction E0 A0 T3 P12)"
    by (simp add: pushTransaction_def verifyTransaction_def HashMap_contains_def E0_def
        T1_def T2_def T3_def P12_def)
  from r pushTransaction_rejection_leaves_pool [OF r] show ?thesis by simp
qed

section \<open>Listing and lookup\<close>

text \<open>
  Claim C8. \<open>getTransactions n\<close> (the spec's \<open>list\<close>) returns the first \<open>n\<close> pooled
  transactions in the order of the map: at most \<open>n\<close> of them, all of them when \<open>n\<close> is
  at least the size of the pool, and it leaves the state as it was.
\<close>
theorem getTransactions_bounded:
  "fst (getTransactions n s) = take n (HashMap_values (transactions s)) \<and>
   length (fst (getTransactions n s)) \<le> n \<and>
   (n \<ge> length (transactions s) \<longrightarrow>
      fst (getTransactions n s) = HashMap_values (transactions s)) \<and>
   snd (getTransactions n s) = s"
  by (simp add: getTransactions_def getTransactions_loop_take HashMap_values_def)

theorem getTransactions_bounded_witness:
  "fst (getTransactions 1 P12) = [T1] \<and> fst (getTransactions 2 P12) = [T1, T2] \<and>
   fst (getTransactions 5000 P12) = [T1, T2] \<and> snd (getTransactions 1 P12) = P12"
  using getTransactions_bounded [of 1 P12] getTransactions_bounded [of 2 P12]
    getTransactions_bounded [of 5000 P12]
  by (simp add: P12_def HashMap_values_def)

text \<open>
  Claim C9. After a submission that returned true, looking up the transaction's hash
  returns that transaction, at once and, on any node whose pool is the one the submission
  left, after any further operations none of which is a successful submission or the
  start or a step of an eviction sweep.
\<close>

theorem getTransaction_after_pushTransaction:
  assumes "fst (pushTransaction E A t s)"
    and "mempool_state S = snd (pushTransaction E A t s)"
    and "no_mutation E ops S"
  shows "fst (getTransaction (hash E t) (snd (pushTransaction E A t s))) = Some t \<and>
         fst (getTransaction (hash E t) (mempool_state (run E ops S))) = Some t"
proof -
  have "transactions (snd (pushTransaction E A t s)) =
          HashMap_put (transactions s) (hash E t) t"
    using assms(1)
    by (auto simp: pushTransaction_def Let_def fire_def verifyTransaction_pool
        split: prod.splits if_splits bool.splits)
      (metis snd_conv verifyTransaction_pool)
  then show ?thesis
    using no_mutation_pool [OF assms(3)] assms(2)
    by (simp add: getTransaction_def HashMap_get_put)
qed

theorem getTransaction_after_pushTransaction_witness:
  "fst (pushTransaction E0 A0 T2 (snd (pushTransaction E0 A0 T1 new_Mempool))) \<and>
   no_mutation E0 [Submit A0 T1, Lookup 7, Listing 3, Submit A0 T3]
     \<lparr>mempool_state = snd (pushTransaction E0 A0 T2 (snd (pushTransaction E0 A0 T1 new_Mempool))),
      inflight = []\<rparr> \<and>
   fst (getTransaction 2003
     (mempool_state (run E0 [Submit A0 T1, Lookup 7, Listing 3, Submit A0 T3]
        \<lparr>mempool_state =
           snd (pushTransaction E0 A0 T2 (snd (pushTransaction E0 A0 T1 new_Mempool))),
         inflight = []\<rparr>))) = Some T2"
proof -
  let ?s = "snd (pushTransaction E0 A0 T1 new_Mempool)"
  have s: "?s = \<lparr>transactions = [(1005, T1)], senderPubKeys = {1},
             fired = [TransactionAdded T1], logged = []\<rparr>"
    by (simp add: pushTransaction_refines spec_submit_def admission_pipeline_def E0_def A0_def T1_def
      new_Mempool_def)
  have a: "fst (pushTransaction E0 A0 T2 ?s)"
    unfolding s
    by (simp add: pushTransaction_refines spec_submit_def admission_pipeline_def E0_def A0_def
        T1_def T2_def)
  have s2: "snd (pushTransaction E0 A0 T2 ?s) = \<lparr>transactions = [(1005, T1), (2003, T2)], senderPubKeys = {2, 1},
             fired = [TransactionAdded T1, TransactionAdded T2], logged = []\<rparr>"
    unfolding s
    by (simp add: pushTransaction_refines spec_submit_def admission_pipeline_def E0_def A0_def
        T1_def T2_def)
  have b: "no_mutation E0 [Submit A0 T1, Lookup 7, Listing 3, Submit A0 T3]
     \<lparr>mempool_state = snd (pushTransaction E0 A0 T2 ?s), inflight = []\<rparr>"
    unfolding s2
    by (simp add: pushTransaction_refines spec_submit_def admission_pipeline_def E0_def A0_def
        T1_def T2_def T3_def getTransaction_def getTransactions_def)
  have h: "hash E0 T2 = 2003" by (simp add: E0_def T2_def)
  from a b getTransaction_after_pushTransaction [OF a _ b] show ?thesis by (simp add: h)
qed

section \<open>The eviction sweep run to completion\<close>

lemma P12_wellformed: "wellformed P12"
  by (simp add: wellformed_def HashMap_keys_def P12_def)

lemma evictTransactions_E0_A1_P12:
  "evictTransactions E0 A1 P12 =
     \<lparr>transactions = [(2003, T2)], senderPubKeys = {2},
      fired = [TransactionAdded T1, TransactionAdded T2, TransactionsReady], logged = []\<rparr>"
  by (simp add: evictTransactions_def issued_checks_def HashMap_keys_def HashMap_get_def
      verifyTransactionBalance_def evict_callback_def HashMap_remove_def HashSet_remove_def
      fire_def E0_def A1_def T1_def T2_def P12_def insert_Diff_if)

text \<open>
  Claim C3. On a pool whose map holds no key twice, the eviction sweep keeps exactly the
  pooled transactions that the ledger has not invalidated (balance at least value plus
  fee, and matching nonce), in their order; it removes from the sender keys exactly the
  senders of the transactions it evicts; and it fires \<open>TransactionsReady\<close> (the spec's
  \<open>pool-updated\<close>) once, after the removals.
\<close>
theorem evictTransactions_removes_invalidated:
  assumes "wellformed s"
  shows "transactions (evictTransactions E A s) =
           filter (\<lambda>e. \<not> invalidated E A (snd e)) (transactions s) \<and>
         senderPubKeys (evictTransactions E A s) =
           senderPubKeys s -
           senderPubKey ` {t \<in> set (HashMap_values (transactions s)). invalidated E A t} \<and>
         fired (evictTransactions E A s) = fired s @ [TransactionsReady]"
  using assms
  by (simp add: evictTransactions_transactions evictTransactions_senderPubKeys
      evictTransactions_fired)

theorem evictTransactions_removes_invalidated_witness:
  "wellformed P12 \<and> invalidated E0 A1 T1 \<and> \<not> invalidated E0 A1 T2 \<and>
   transactions (evictTransactions E0 A1 P12) = [(2003, T2)] \<and>
   senderPubKeys (evictTransactions E0 A1 P12) = {2} \<and>
   transactions (evictTransactions E0 A1 P12) =
     filter (\<lambda>e. \<not> invalidated E0 A1 (snd e)) (transactions P12) \<and>
   senderPubKeys (evictTransactions E0 A1 P12) =
     senderPubKeys P12 -
     senderPubKey ` {t \<in> set (HashMap_values (transactions P12)). invalidated E0 A1 t} \<and>
   fired (evictTransactions E0 A1 P12) = fired P12 @ [TransactionsReady]"
proof -
  have i: "invalidated E0 A1 T1 \<and> \<not> invalidated E0 A1 T2"
    by (simp add: invalidated_def E0_def A1_def T1_def T2_def)
  have e: "transactions (evictTransactions E0 A1 P12) = [(2003, T2)] \<and>
           senderPubKeys (evictTransactions E0 A1 P12) = {2}"
    by (simp add: evictTransactions_E0_A1_P12)
  from evictTransactions_removes_invalidated [OF P12_wellformed, of E0 A1] i e P12_wellformed
  show ?thesis by blast
qed

text \<open>
  Claim C6. A second sweep against the same accounts state removes nothing: the map and
  the sender keys after two sweeps are those after one.
\<close>
theorem evictTransactions_idempotent:
  assumes "wellformed s"
  shows "transactions (evictTransactions E A (evictTransactions E A s)) =
           transactions (evictTransactions E A s) \<and>
         senderPubKeys (evictTransactions E A (evictTransactions E A s)) =
           senderPubKeys (evictTransactions E A s)"
proof -
  define s1 where "s1 = evictTransactions E A s"
  have t1: "transactions s1 = filter (\<lambda>e. \<not> invalidated E A (snd e)) (transactions s)"
    unfolding s1_def by (rule evictTransactions_transactions [OF assms])
  have w1: "wellformed s1"
    by (rule wellformed_filter [OF assms t1])
  have none: "{t \<in> set (HashMap_values (transactions s1)). invalidated E A t} = {}"
    unfolding t1 HashMap_values_def by auto
  have "transactions (evictTransactions E A s1) =
          filter (\<lambda>e. \<not> invalidated E A (snd e)) (transactions s1)"
    by (rule evictTransactions_transactions [OF w1])
  also have "\<dots> = transactions s1"
    unfolding t1 by simp
  finally have a: "transactions (evictTransactions E A s1) = transactions s1" .
  have b: "senderPubKeys (evictTransactions E A s1) = senderPubKeys s1"
    unfolding evictTransactions_senderPubKeys [OF w1] none by simp
  from a b show ?thesis unfolding s1_def by simp
qed

theorem evictTransactions_idempotent_witness:
  "wellformed P12 \<and>
   transactions (evictTransactions E0 A1 P12) = [(2003, T2)] \<and>
   senderPubKeys (evictTransactions E0 A1 P12) = {2} \<and>
   transactions (evictTransactions E0 A1 (evictTransactions E0 A1 P12)) =
     transactions (evictTransactions E0 A1 P12) \<and>
   senderPubKeys (evictTransactions E0 A1 (evictTransactions E0 A1 P12)) =
     senderPubKeys (evictTransactions E0 A1 P12)"
proof -
  have e: "transactions (evictTransactions E0 A1 P12) = [(2003, T2)] \<and>
           senderPubKeys (evictTransactions E0 A1 P12) = {2}"
    by (simp add: evictTransactions_E0_A1_P12)
  from evictTransactions_idempotent [OF P12_wellformed, of E0 A1] e P12_wellformed
  show ?thesis by blast
qed

text \<open>
  Claim C10. A sweep only removes: the entries and keys of the map after it are among
  those before, so are the sender keys, and a hash that is still found is found with the
  transaction it had before.
\<close>
theorem evictTransactions_only_removes:
  "set (transactions (evictTransactions E A s)) \<subseteq> set (transactions s) \<and>
   set (HashMap_keys (transactions (evictTransactions E A s)))
     \<subseteq> set (HashMap_keys (transactions s)) \<and>
   senderPubKeys (evictTransactions E A s) \<subseteq> senderPubKeys s \<and>
   (\<forall>h t. fst (getTransaction h (evictTransactions E A s)) = Some t \<longrightarrow>
          fst (getTransaction h s) = Some t)"
proof -
  let ?Q = "\<lambda>h. \<not> (\<exists>t. (h, t) \<in> set (issued_checks s) \<and> invalidated E A t)"
  have t: "transactions (evictTransactions E A s) =
             filter (\<lambda>e. ?Q (fst e)) (transactions s)"
    by (simp add: evictTransactions_def fire_def evict_loop_transactions)
  have k: "senderPubKeys (evictTransactions E A s) \<subseteq> senderPubKeys s"
    by (auto simp: evictTransactions_def fire_def evict_loop_senderPubKeys)
  have g: "fst (getTransaction h (evictTransactions E A s)) = Some t \<longrightarrow>
           fst (getTransaction h s) = Some t" for h t
    unfolding getTransaction_def HashMap_get_def fst_conv t map_of_filter_key [of ?Q]
    by (simp split: if_splits)
  from k g show ?thesis
    by (auto simp: t HashMap_keys_def)
qed

theorem evictTransactions_only_removes_witness:
  "fst (getTransaction 2003 (evictTransactions E0 A1 P12)) = Some T2 \<and>
   fst (getTransaction 2003 P12) = Some T2 \<and>
   fst (getTransaction 1005 (evictTransactions E0 A1 P12)) = None \<and>
   set (transactions (evictTransactions E0 A1 P12)) \<subseteq> set (transactions P12) \<and>
   senderPubKeys (evictTransactions E0 A1 P12) \<subseteq> senderPubKeys P12"
proof -
  have a: "fst (getTransaction 2003 (evictTransactions E0 A1 P12)) = Some T2 \<and>
           fst (getTransaction 1005 (evictTransactions E0 A1 P12)) = None"
    by (simp add: evictTransactions_E0_A1_P12 getTransaction_def HashMap_get_def)
  from evictTransactions_only_removes [of E0 A1 P12] a show ?thesis by blast
qed

section \<open>The states a node reaches\<close>

lemma pool_invariant_new: "pool_invariant new_Mempool"
  by (simp add: pool_invariant_def wellformed_def HashMap_keys_def new_Mempool_def)

lemma pool_invariant_pushTransaction:
  assumes "pool_invariant s"
  shows "pool_invariant (snd (pushTransaction E A t s))"
  using assms
  by (auto simp: pushTransaction_refines spec_submit_def admission_pipeline_def
      pool_invariant_def wellformed_def HashMap_keys_def split: option.splits)

lemma pool_invariant_evictTransactions:
  assumes "pool_invariant s"
  shows "pool_invariant (evictTransactions E A s)"
proof -
  from assms have w: "wellformed s"
    and d: "distinct (map (senderPubKey \<circ> snd) (transactions s))"
    and k: "senderPubKeys s = set (map (senderPubKey \<circ> snd) (transactions s))"
    by (simp_all add: pool_invariant_def)
  let ?keep = "\<lambda>e. \<not> invalidated E A (snd e)"
  have t: "transactions (evictTransactions E A s) = filter ?keep (transactions s)"
    by (rule evictTransactions_transactions [OF w])
  have w': "wellformed (evictTransactions E A s)"
    by (rule wellformed_filter [OF w t])
  have d': "distinct (map (senderPubKey \<circ> snd) (filter ?keep (transactions s)))"
    using d by (rule distinct_map_filter)
  have inj: "inj_on (senderPubKey \<circ> snd) (set (transactions s))"
    using d by (simp add: distinct_map)
  have "senderPubKeys (evictTransactions E A s) =
          (senderPubKey \<circ> snd) ` set (transactions s) -
          (senderPubKey \<circ> snd) ` {e \<in> set (transactions s). invalidated E A (snd e)}"
    unfolding evictTransactions_senderPubKeys [OF w] k HashMap_values_def
    by (auto simp: image_iff)
  also have "\<dots> = (senderPubKey \<circ> snd) `
                     (set (transactions s) - {e \<in> set (transactions s). invalidated E A (snd e)})"
    by (rule inj_on_image_set_diff [OF inj, symmetric]) auto
  also have "\<dots> = set (map (senderPubKey \<circ> snd) (filter ?keep (transactions s)))"
    by auto
  finally show ?thesis
    using w' d' by (simp add: pool_invariant_def t)
qed

lemma wellformed_pushTransaction:
  "wellformed s \<Longrightarrow> wellformed (snd (pushTransaction E A t s))"
  by (auto simp: pushTransaction_refines spec_submit_def admission_pipeline_def
      wellformed_def HashMap_keys_def split: option.splits)

lemma sweep_step_wellformed:
  assumes "sweep_step E A a c = Some c'" and "wellformed (pool c)"
  shows "wellformed (pool c')"
proof (cases a)
  case (Resolve i)
  with assms(1) have "pool c' = pool c"
    by (auto simp: verifyTransactionBalance_quiet split: if_splits prod.splits)
  with assms(2) show ?thesis by simp
next
  case Continue
  with assms(1) obtain h t v where "pool c' = evict_callback h t v (pool c)"
    by (auto split: list.splits)
  with assms(2) show ?thesis
    by (simp add: wellformed_def HashMap_keys_def evict_callback_simps distinct_map_filter)
next
  case Finish
  with assms(1) have "pool c' = fire TransactionsReady (pool c)"
    by (auto split: if_splits)
  with assms(2) show ?thesis by (simp add: wellformed_def fire_def)
qed

lemma wellformed_apply_operation:
  assumes "wellformed (mempool_state S)"
  shows "wellformed (mempool_state (apply_operation E op S))"
proof (cases op)
  case (Submit A t)
  with assms show ?thesis by (simp add: wellformed_pushTransaction)
next
  case HeadChanged
  with assms show ?thesis by simp
next
  case (SweepProgress i A a)
  show ?thesis
  proof (cases "i < length (inflight S)")
    case True
    show ?thesis
    proof (cases "sweep_step E A a (resume (inflight S ! i) (mempool_state S))")
      case None
      with True SweepProgress assms show ?thesis by simp
    next
      case (Some c)
      have "wellformed (pool (resume (inflight S ! i) (mempool_state S)))"
        using assms by (simp add: resume_def)
      from sweep_step_wellformed [OF Some this] True SweepProgress Some
      show ?thesis by simp
    qed
  next
    case False
    with SweepProgress assms show ?thesis by simp
  qed
next
  case (Lookup h)
  with assms show ?thesis by (simp add: getTransaction_def)
next
  case (Listing n)
  with assms show ?thesis by (simp add: getTransactions_def)
qed

lemma wellformed_run_from:
  "wellformed (mempool_state S) \<Longrightarrow> wellformed (mempool_state (run E ops S))"
  by (induction ops arbitrary: S) (simp_all add: wellformed_apply_operation)

lemma wellformed_run: "wellformed (mempool_state (run E ops new_node))"
  by (rule wellformed_run_from)
    (simp add: new_node_def wellformed_def HashMap_keys_def new_Mempool_def)

lemma run_overlapping_sweeps:
  "run E0 overlapping_sweeps new_node =
     \<lparr>mempool_state =
        \<lparr>transactions = [(1006, T1_next)], senderPubKeys = {},
         fired = [TransactionAdded T1, TransactionAdded T1_next,
                  TransactionsReady, TransactionsReady],
         logged = []\<rparr>,
      inflight =
        [\<lparr>task_pending = [], task_resolved = [], task_finished = True\<rparr>,
         \<lparr>task_pending = [], task_resolved = [], task_finished = True\<rparr>]\<rparr>"
  by (simp add: overlapping_sweeps_def new_node_def new_Mempool_def resume_def suspend_def
      sweep_start_def issued_checks_def HashMap_keys_def HashMap_get_def
      pushTransaction_refines spec_submit_def admission_pipeline_def
      verifyTransactionBalance_def evict_callback_def HashMap_remove_def HashSet_remove_def
      fire_def E0_def A0_def A1_def T1_def T1_next_def)

text \<open>
  Claim C2. The sender keys are meant to be exactly the senders of the pooled
  transactions, one transaction each. A submission keeps that, and so does a sweep that
  runs with nothing in between (\<open>pool_invariant_pushTransaction\<close> and
  \<open>pool_invariant_evictTransactions\<close>); two sweeps in flight at once do not. After \<open>overlapping_sweeps\<close> both sweeps are over, \<open>T1_next\<close> is pooled, and the
  set of sender keys is empty: the second sweep's continuation for \<open>T1\<close>, evicted by the
  first sweep already, has removed the key that \<open>T1_next\<close> had put back.
\<close>

theorem overlapping_sweeps_lose_sender_key:
  "run E0 overlapping_sweeps new_node =
     \<lparr>mempool_state =
        \<lparr>transactions = [(1006, T1_next)], senderPubKeys = {},
         fired = [TransactionAdded T1, TransactionAdded T1_next,
                  TransactionsReady, TransactionsReady],
         logged = []\<rparr>,
      inflight =
        [\<lparr>task_pending = [], task_resolved = [], task_finished = True\<rparr>,
         \<lparr>task_pending = [], task_resolved = [], task_finished = True\<rparr>]\<rparr> \<and>
   senderPubKey T1_next \<notin> senderPubKeys (mempool_state (run E0 overlapping_sweeps new_node)) \<and>
   card (senderPubKeys (mempool_state (run E0 overlapping_sweeps new_node))) = 0 \<and>
   length (transactions (mempool_state (run E0 overlapping_sweeps new_node))) = 1 \<and>
   \<not> pool_invariant (mempool_state (run E0 overlapping_sweeps new_node))"
  unfolding run_overlapping_sweeps by (simp add: pool_invariant_def)

lemma pushTransaction_known:
  "hash E t \<in> set (map fst (transactions s)) \<Longrightarrow>
     pushTransaction E A t s = (False, Log_v IgnoringKnownTransaction s)"
  by (simp add: pushTransaction_def HashMap_contains_def)

lemma pushTransaction_admitted_known:
  "fst (pushTransaction E A t s) \<Longrightarrow>
     hash E t \<in> set (map fst (transactions (snd (pushTransaction E A t s))))"
  by (auto simp: pushTransaction_refines spec_submit_def split: option.splits)

lemma submit_each_Cons:
  "submit_each E t (A # As) s =
     (fst (pushTransaction E A t s) # fst (submit_each E t As (snd (pushTransaction E A t s))),
      snd (submit_each E t As (snd (pushTransaction E A t s))))"
  by (simp add: case_prod_beta)

lemma submit_each_known:
  "hash E t \<in> set (map fst (transactions s)) \<Longrightarrow>
     submit_each E t As s =
       (replicate (length As) False,
        s\<lparr>logged := logged s @ replicate (length As) (Verbose, IgnoringKnownTransaction)\<rparr>)"
proof (induction As arbitrary: s)
  case Nil
  then show ?case by simp
next
  case (Cons A As)
  have k: "hash E t \<in> set (map fst (transactions (Log_v IgnoringKnownTransaction s)))"
    using Cons.prems by (simp add: Log_v_def)
  show ?case
    unfolding submit_each_Cons pushTransaction_known [OF Cons.prems] snd_conv fst_conv
      Cons.IH [OF k]
    by (simp add: Log_v_def)
qed

lemma pushTransaction_result_depends_on_pool:
  "transactions s' = transactions s \<Longrightarrow> senderPubKeys s' = senderPubKeys s \<Longrightarrow>
     fst (pushTransaction E A t s') = fst (pushTransaction E A t s)"
  by (simp add: pushTransaction_refines spec_submit_accepts admission_pipeline_def)

lemma submit_each_rejected:
  "\<not> fst (pushTransaction E A t s) \<Longrightarrow>
     fst (submit_each E t (replicate n A) s) = replicate n False"
proof (induction n arbitrary: s)
  case 0
  then show ?case by simp
next
  case (Suc n)
  let ?s1 = "snd (pushTransaction E A t s)"
  have "\<not> fst (pushTransaction E A t ?s1)"
    using Suc.prems pushTransaction_rejected [OF Suc.prems]
      pushTransaction_result_depends_on_pool [of ?s1 s E A t]
    by simp
  from Suc.IH [OF this] Suc.prems show ?case
    unfolding replicate_Suc submit_each_Cons by simp
qed

lemma submit_each_admitted_once:
  "length (filter (\<lambda>r. r) (fst (submit_each E t As s))) \<le> 1"
proof (induction As arbitrary: s)
  case Nil
  then show ?case by simp
next
  case (Cons A As)
  show ?case
  proof (cases "fst (pushTransaction E A t s)")
    case True
    have "fst (submit_each E t As (snd (pushTransaction E A t s))) =
            replicate (length As) False"
      by (simp add: submit_each_known [OF pushTransaction_admitted_known [OF True]])
    with True show ?thesis
      unfolding submit_each_Cons by simp
  next
    case False
    with Cons.IH [of "snd (pushTransaction E A t s)"] show ?thesis
      unfolding submit_each_Cons by simp
  qed
qed

lemma submit_each_examples:
  "submit_each E0 T1 [A_poor, A0, A0] new_Mempool =
     ([False, True, False],
      \<lparr>transactions = [(1005, T1)], senderPubKeys = {1}, fired = [TransactionAdded T1],
       logged = [(Warning, InsufficientFunds), (Verbose, IgnoringKnownTransaction)]\<rparr>)"
  "submit_each E0 T3 [A0, A0] new_Mempool =
     ([False, False],
      \<lparr>transactions = [], senderPubKeys = {}, fired = [],
       logged = [(Warning, InvalidSignature), (Warning, InvalidSignature)]\<rparr>)"
  by (simp_all add: pushTransaction_refines spec_submit_def admission_pipeline_def
      E0_def A0_def A_poor_def T1_def T3_def new_Mempool_def)

lemma run_evicted:
  "run E0 [Submit A0 T1, HeadChanged, SweepProgress 0 A1 (Resolve 0),
           SweepProgress 0 A1 Continue, SweepProgress 0 A1 Finish] new_node =
     \<lparr>mempool_state =
        \<lparr>transactions = [], senderPubKeys = {},
         fired = [TransactionAdded T1, TransactionsReady], logged = []\<rparr>,
      inflight = [\<lparr>task_pending = [], task_resolved = [], task_finished = True\<rparr>]\<rparr>"
  by (simp add: new_node_def new_Mempool_def resume_def suspend_def
      sweep_start_def issued_checks_def HashMap_keys_def HashMap_get_def
      pushTransaction_refines spec_submit_def admission_pipeline_def
      verifyTransactionBalance_def evict_callback_def HashMap_remove_def HashSet_remove_def
      fire_def E0_def A0_def A1_def T1_def)

text \<open>
  Claim C5, as amended. While the identity of a transaction is in the map, every
  submission of it returns false, rejected at the first check as a known transaction, and
  changes nothing but the log. Hence, of submissions of the same transaction one after
  the other, at most one returns true, whatever the accounts states; none but the first
  does when the accounts state is the same for all of them; and after the one that is
  admitted every later one is rejected as known. The keys of the map are distinct in
  every state of a node reached from the empty one, whatever sweeps are in flight.
\<close>

theorem repeated_submission_admitted_at_most_once:
  "(hash E t \<in> set (HashMap_keys (transactions s)) \<longrightarrow>
      pushTransaction E A t s = (False, Log_v IgnoringKnownTransaction s)) \<and>
   length (filter (\<lambda>r. r) (fst (submit_each E t As s))) \<le> 1 \<and>
   (\<forall>r \<in> set (tl (fst (submit_each E t (replicate n A) s))). \<not> r) \<and>
   (fst (pushTransaction E A t s) \<longrightarrow>
      submit_each E t (A # Bs) s =
        (True # replicate (length Bs) False,
         (snd (pushTransaction E A t s))
           \<lparr>logged := logged (snd (pushTransaction E A t s))
                        @ replicate (length Bs) (Verbose, IgnoringKnownTransaction)\<rparr>)) \<and>
   distinct (HashMap_keys (transactions (mempool_state (run E ops new_node))))"
proof -
  have later: "submit_each E t (A # Bs) s =
        (True # replicate (length Bs) False,
         (snd (pushTransaction E A t s))
           \<lparr>logged := logged (snd (pushTransaction E A t s))
                        @ replicate (length Bs) (Verbose, IgnoringKnownTransaction)\<rparr>)"
    if a: "fst (pushTransaction E A t s)" for Bs
    unfolding submit_each_Cons
      submit_each_known [OF pushTransaction_admitted_known [OF a], of Bs]
    using a by simp
  have "\<forall>r \<in> set (tl (fst (submit_each E t (replicate n A) s))). \<not> r"
  proof (cases "fst (pushTransaction E A t s)")
    case True
    show ?thesis
    proof (cases n)
      case 0
      then show ?thesis by simp
    next
      case (Suc m)
      then show ?thesis using later [OF True, of "replicate m A"] by simp
    qed
  next
    case False
    from submit_each_rejected [OF False, of n] show ?thesis
      by (cases n) simp_all
  qed
  moreover have "distinct (HashMap_keys (transactions (mempool_state (run E ops new_node))))"
    using wellformed_run [of E ops] by (simp add: wellformed_def)
  moreover note submit_each_admitted_once [of E t As s]
  moreover have "hash E t \<in> set (HashMap_keys (transactions s)) \<longrightarrow>
      pushTransaction E A t s = (False, Log_v IgnoringKnownTransaction s)"
    by (simp add: HashMap_keys_def pushTransaction_known)
  ultimately show ?thesis using later by blast
qed

theorem repeated_submission_admitted_at_most_once_witness:
  "fst (pushTransaction E0 A0 T1 new_Mempool) \<and>
   fst (submit_each E0 T1 [A0, A0, A1] new_Mempool) = [True, False, False] \<and>
   logged (snd (submit_each E0 T1 [A0, A0, A1] new_Mempool)) =
     [(Verbose, IgnoringKnownTransaction), (Verbose, IgnoringKnownTransaction)] \<and>
   fst (submit_each E0 T3 [A0, A0, A0] new_Mempool) = [False, False, False] \<and>
   length (filter (\<lambda>r. r) (fst (submit_each E0 T1 [A_poor, A0, A0] new_Mempool))) \<le> 1"
proof -
  have 1: "pushTransaction E0 A0 T1 new_Mempool =
      (True, \<lparr>transactions = [(1005, T1)], senderPubKeys = {1},
              fired = [TransactionAdded T1], logged = []\<rparr>)"
    by (simp add: pushTransaction_refines spec_submit_def admission_pipeline_def E0_def
        A0_def T1_def new_Mempool_def)
  have 3: "\<not> fst (pushTransaction E0 A0 T3 new_Mempool)"
    by (simp add: pushTransaction_refines spec_submit_accepts admission_pipeline_def E0_def
        T3_def)
  have r3: "fst (submit_each E0 T3 [A0, A0, A0] new_Mempool) = [False, False, False]"
    using submit_each_rejected [OF 3, of 3] by (simp add: numeral_3_eq_3)
  have a: "fst (pushTransaction E0 A0 T1 new_Mempool)" by (simp add: 1)
  note w = repeated_submission_admitted_at_most_once
    [where E = E0 and t = T1 and s = new_Mempool and A = A0 and As = "[A_poor, A0, A0]"
       and n = 0 and Bs = "[A0, A1]" and ops = "[]"]
  from w a
  have "submit_each E0 T1 [A0, A0, A1] new_Mempool =
        (True # replicate (length [A0, A1]) False,
         (snd (pushTransaction E0 A0 T1 new_Mempool))
           \<lparr>logged := logged (snd (pushTransaction E0 A0 T1 new_Mempool))
                        @ replicate (length [A0, A1]) (Verbose, IgnoringKnownTransaction)\<rparr>)"
    by blast
  then have "fst (submit_each E0 T1 [A0, A0, A1] new_Mempool) = [True, False, False] \<and>
   logged (snd (submit_each E0 T1 [A0, A0, A1] new_Mempool)) =
     [(Verbose, IgnoringKnownTransaction), (Verbose, IgnoringKnownTransaction)]"
    by (simp add: 1 numeral_2_eq_2)
  with a r3 w show ?thesis by blast
qed

text \<open>
  Claim C5, as stated: at most the first of the repeated submissions returns true, and
  every later one is rejected because the identity is already in the map. Neither holds:
  \<open>T1\<close> is rejected while its sender lacks the funds and admitted at the second
  submission, once the account is funded; \<open>T3\<close>, whose signature is invalid, is
  rejected each time for its signature, its identity never being in the map; and \<open>T1\<close>,
  admitted, then evicted by a sweep when the ledger is at \<open>A1\<close>, is admitted again when
  the ledger is back at \<open>A0\<close>.
\<close>

theorem only_first_submission_admitted_counterexample:
  "fst (submit_each E0 T1 [A_poor, A0, A0] new_Mempool) = [False, True, False] \<and>
   fst (submit_each E0 T3 [A0, A0] new_Mempool) = [False, False] \<and>
   logged (snd (submit_each E0 T3 [A0, A0] new_Mempool)) =
     [(Warning, InvalidSignature), (Warning, InvalidSignature)] \<and>
   transactions (snd (submit_each E0 T3 [A0, A0] new_Mempool)) = [] \<and>
   fst (pushTransaction E0 A0 T1 new_Mempool) \<and>
   fst (pushTransaction E0 A0 T1
         (mempool_state
           (run E0 [Submit A0 T1, HeadChanged, SweepProgress 0 A1 (Resolve 0),
                    SweepProgress 0 A1 Continue, SweepProgress 0 A1 Finish] new_node)))"
  unfolding submit_each_examples run_evicted
  by (simp add: pushTransaction_refines spec_submit_accepts admission_pipeline_def
      E0_def A0_def T1_def new_Mempool_def)

section \<open>The eviction sweep in flight\<close>

lemma sweep_invariant_start:
  assumes "wellformed s"
  shows "sweep_invariant E A s (sweep_start s)"
  using assms
  by (auto simp: sweep_invariant_def sweep_start_def awaiting_def issued_checks_wellformed
      wellformed_def HashMap_keys_def intro!: filter_id_conv [THEN iffD2, symmetric])

lemma remove_nth_split:
  assumes "i < length xs"
  obtains a b where "xs = a @ (xs ! i) # b" and "take i xs @ drop (Suc i) xs = a @ b"
  using assms id_take_nth_drop [of i xs] by blast

lemma sweep_invariant_Resolve:
  assumes inv: "sweep_invariant E A s c"
    and step: "sweep_step E A (Resolve i) c = Some c'"
  shows "sweep_invariant E A s c'"
proof -
  from step have i: "i < length (pending c)"
    by (simp split: if_splits)
  obtain h t where ht: "pending c ! i = (h, t)" by (cases "pending c ! i")
  from remove_nth_split [OF i] ht obtain a b
    where ab: "pending c = a @ (h, t) # b"
      and rest: "take i (pending c) @ drop (Suc i) (pending c) = a @ b"
    by metis
  from step i ht rest have c': "c' = c\<lparr>pending := a @ b,
      resolved := resolved c @ [(h, t, \<not> invalidated E A t)]\<rparr>"
    by (simp add: verifyTransactionBalance_quiet)
  have aw: "awaiting c' = awaiting c"
    by (auto simp: c' awaiting_def ab)
  from inv show ?thesis
    unfolding sweep_invariant_def aw
    by (auto simp: c' ab)
qed

lemma sweep_invariant_Continue:
  assumes wf: "wellformed s"
    and inv: "sweep_invariant E A s c"
    and step: "sweep_step E A Continue c = Some c'"
  shows "sweep_invariant E A s c'"
proof -
  from step obtain h t v rest where r: "resolved c = (h, t, v) # rest"
    and c': "c' = c\<lparr>resolved := rest, pool := evict_callback h t v (pool c)\<rparr>"
    by (auto split: list.splits)
  from inv r have mem: "(h, t) \<in> set (transactions s)"
    and v: "v = (\<not> invalidated E A t)"
    and dist: "distinct (map fst (pending c) @ map fst (resolved c))"
    by (auto simp: sweep_invariant_def)
  from wf have d: "distinct (map fst (transactions s))"
    by (simp add: wellformed_def HashMap_keys_def)
  have only: "snd e = t" if "e \<in> set (transactions s)" "fst e = h" for e
    using d mem that by (metis eq_key_imp_eq_value prod.collapse)
  have aw: "awaiting c' = awaiting c - {h}"
    using dist by (auto simp: c' awaiting_def r)
  have hin: "h \<in> awaiting c" by (simp add: awaiting_def r)
  have tx: "transactions (pool c') =
          filter (\<lambda>e. fst e \<in> awaiting c' \<or> \<not> invalidated E A (snd e)) (transactions s)"
  proof -
    have old: "transactions (pool c) =
          filter (\<lambda>e. fst e \<in> awaiting c \<or> \<not> invalidated E A (snd e)) (transactions s)"
      using inv unfolding sweep_invariant_def by blast
    show ?thesis
    proof (cases v)
      case True
      have "transactions (pool c') = transactions (pool c)"
        using True by (simp add: c' evict_callback_simps)
      also note old
      also have "filter (\<lambda>e. fst e \<in> awaiting c \<or> \<not> invalidated E A (snd e)) (transactions s) =
            filter (\<lambda>e. fst e \<in> awaiting c - {h} \<or> \<not> invalidated E A (snd e))
              (transactions s)"
        by (rule filter_cong [OF refl]) (use only True v in auto)
      finally show ?thesis unfolding aw .
    next
      case False
      have "transactions (pool c') = filter (\<lambda>e. fst e \<noteq> h) (transactions (pool c))"
        using False by (simp add: c' evict_callback_simps)
      also have "\<dots> = filter (\<lambda>e. fst e \<noteq> h)
              (filter (\<lambda>e. fst e \<in> awaiting c \<or> \<not> invalidated E A (snd e)) (transactions s))"
        by (simp only: old)
      also have "\<dots> =
            filter (\<lambda>e. fst e \<in> awaiting c - {h} \<or> \<not> invalidated E A (snd e))
              (transactions s)"
        unfolding filter_filter
        by (rule filter_cong [OF refl]) (use only False v in auto)
      finally show ?thesis unfolding aw .
    qed
  qed
  have ks: "senderPubKeys (pool c') =
          senderPubKeys s -
          senderPubKey ` snd ` {e \<in> set (transactions s).
                                 fst e \<notin> awaiting c' \<and> invalidated E A (snd e)}"
  proof -
    let ?gone = "{e \<in> set (transactions s). fst e \<notin> awaiting c \<and> invalidated E A (snd e)}"
    have old: "senderPubKeys (pool c) = senderPubKeys s - senderPubKey ` snd ` ?gone"
      using inv unfolding sweep_invariant_def by blast
    show ?thesis
    proof (cases v)
      case True
      have same: "{e \<in> set (transactions s).
                    fst e \<notin> awaiting c - {h} \<and> invalidated E A (snd e)} = ?gone"
        using only True v hin by auto
      have "senderPubKeys (pool c') = senderPubKeys (pool c)"
        using True by (simp add: c' evict_callback_simps)
      with old show ?thesis unfolding aw same by simp
    next
      case False
      from False v have bad: "invalidated E A t" by simp
      have more: "{e \<in> set (transactions s).
                    fst e \<notin> awaiting c - {h} \<and> invalidated E A (snd e)} = insert (h, t) ?gone"
      proof (intro set_eqI iffI)
        fix e
        assume "e \<in> {e \<in> set (transactions s).
                    fst e \<notin> awaiting c - {h} \<and> invalidated E A (snd e)}"
        then have e: "e \<in> set (transactions s)" "invalidated E A (snd e)"
          and w: "fst e \<notin> awaiting c \<or> fst e = h"
          by simp_all
        show "e \<in> insert (h, t) ?gone"
        proof (cases "fst e = h")
          case True
          with only [OF e(1) True] have "e = (h, t)" by (simp add: prod_eq_iff)
          then show ?thesis by simp
        next
          case False
          with e w show ?thesis by simp
        qed
      next
        fix e
        assume "e \<in> insert (h, t) ?gone"
        then consider "e = (h, t)" | "e \<in> ?gone" by blast
        then show "e \<in> {e \<in> set (transactions s).
                    fst e \<notin> awaiting c - {h} \<and> invalidated E A (snd e)}"
        proof cases
          case 1
          with mem bad show ?thesis by simp
        next
          case 2
          then show ?thesis by simp
        qed
      qed
      have "senderPubKeys (pool c') = senderPubKeys (pool c) - {senderPubKey t}"
        using False by (simp add: c' evict_callback_simps)
      also have "\<dots> = senderPubKeys s - senderPubKey ` snd ` ?gone - {senderPubKey t}"
        by (simp only: old)
      also have "\<dots> = senderPubKeys s - senderPubKey ` snd ` insert (h, t) ?gone"
        by auto
      finally show ?thesis unfolding aw more .
    qed
  qed
  from inv have i1: "distinct (map fst (pending c) @ map fst (resolved c))"
    and i2: "set (pending c) \<subseteq> set (transactions s)"
    and i3: "\<forall>r \<in> set (resolved c).
            (fst r, fst (snd r)) \<in> set (transactions s)
            \<and> snd (snd r) = (\<not> invalidated E A (fst (snd r)))"
    and i6: "fired (pool c) = fired s @ (if finished c then [TransactionsReady] else [])"
    and i7: "logged (pool c) = logged s"
    and i8: "finished c \<longrightarrow> pending c = [] \<and> resolved c = []"
    unfolding sweep_invariant_def by blast+
  from i8 r have nf: "\<not> finished c" by auto
  have g1: "distinct (map fst (pending c') @ map fst (resolved c'))"
    using i1 by (simp add: c' r)
  have g2: "set (pending c') \<subseteq> set (transactions s)"
    using i2 by (simp add: c')
  have g3: "\<forall>r \<in> set (resolved c').
            (fst r, fst (snd r)) \<in> set (transactions s)
            \<and> snd (snd r) = (\<not> invalidated E A (fst (snd r)))"
    using i3 by (simp add: c' r)
  have g6: "fired (pool c') = fired s @ (if finished c' then [TransactionsReady] else [])"
    using i6 by (simp add: c' evict_callback_simps)
  have g7: "logged (pool c') = logged s"
    using i7 by (simp add: c' evict_callback_simps)
  have g8: "finished c' \<longrightarrow> pending c' = [] \<and> resolved c' = []"
    using nf by (simp add: c')
  from g1 g2 g3 tx ks g6 g7 g8 show ?thesis
    unfolding sweep_invariant_def by blast
qed

lemma sweep_invariant_Finish:
  assumes inv: "sweep_invariant E A s c"
    and step: "sweep_step E A Finish c = Some c'"
  shows "sweep_invariant E A s c'"
proof -
  from step have e: "pending c = []" "resolved c = []" "\<not> finished c"
    and c': "c' = c\<lparr>finished := True, pool := fire TransactionsReady (pool c)\<rparr>"
    by (simp_all split: if_splits)
  have aw: "awaiting c' = awaiting c" by (simp add: c' awaiting_def)
  from inv e show ?thesis
    unfolding sweep_invariant_def aw
    by (simp add: c' fire_def)
qed

lemma sweep_invariant_step:
  "wellformed s \<Longrightarrow> sweep_invariant E A s c \<Longrightarrow> sweep_step E A a c = Some c' \<Longrightarrow>
     sweep_invariant E A s c'"
  by (cases a)
    (blast intro: sweep_invariant_Resolve sweep_invariant_Continue sweep_invariant_Finish)+

lemma sweep_invariant_run:
  "wellformed s \<Longrightarrow> sweep_invariant E A s c \<Longrightarrow> sweep_run E A as c = Some c' \<Longrightarrow>
     sweep_invariant E A s c'"
proof (induction as arbitrary: c)
  case Nil
  then show ?case by simp
next
  case (Cons a as)
  from Cons.prems(3) obtain c1 where 1: "sweep_step E A a c = Some c1"
    and 2: "sweep_run E A as c1 = Some c'"
    by (auto split: option.splits)
  from Cons.IH [OF Cons.prems(1) sweep_invariant_step [OF Cons.prems(1,2) 1] 2]
  show ?case .
qed


lemma sweep_run_append:
  "sweep_run E A (xs @ ys) c =
     (case sweep_run E A xs c of None \<Rightarrow> None | Some c1 \<Rightarrow> sweep_run E A ys c1)"
  by (induction xs arbitrary: c) (auto split: option.splits)

lemma resolve_all:
  "length (pending c) = n \<Longrightarrow>
   \<exists>c1. sweep_run E A (replicate n (Resolve 0)) c = Some c1 \<and> pending c1 = [] \<and>
        length (resolved c1) = length (resolved c) + n \<and> finished c1 = finished c"
proof (induction n arbitrary: c)
  case 0
  then show ?case by simp
next
  case (Suc n)
  then obtain x xs where p: "pending c = x # xs" and n: "length xs = n"
    by (cases "pending c") auto
  obtain h t where x: "x = (h, t)" by (cases x)
  define c' where "c' = c\<lparr>pending := xs,
      resolved := resolved c @ [(h, t, \<not> invalidated E A t)]\<rparr>"
  have step: "sweep_step E A (Resolve 0) c = Some c'"
    by (simp add: p x c'_def verifyTransactionBalance_quiet)
  have "length (pending c') = n" by (simp add: c'_def n)
  from Suc.IH [OF this] obtain c1
    where "sweep_run E A (replicate n (Resolve 0)) c' = Some c1" "pending c1 = []"
      "length (resolved c1) = length (resolved c') + n" "finished c1 = finished c'"
    by blast
  moreover have "sweep_run E A (replicate (Suc n) (Resolve 0)) c =
                 sweep_run E A (replicate n (Resolve 0)) c'"
    by (simp only: replicate_Suc sweep_run.simps step option.case)
  moreover have "length (resolved c') = Suc (length (resolved c))" "finished c' = finished c"
    by (simp_all add: c'_def)
  ultimately show ?case by simp
qed

lemma continue_all:
  "length (resolved c) = n \<Longrightarrow>
   \<exists>c1. sweep_run E A (replicate n Continue) c = Some c1 \<and> resolved c1 = [] \<and>
        pending c1 = pending c \<and> finished c1 = finished c"
proof (induction n arbitrary: c)
  case 0
  then show ?case by simp
next
  case (Suc n)
  then obtain x xs where p: "resolved c = x # xs" and n: "length xs = n"
    by (cases "resolved c") auto
  obtain h t v where x: "x = (h, t, v)" by (cases x)
  define c' where "c' = c\<lparr>resolved := xs, pool := evict_callback h t v (pool c)\<rparr>"
  have step: "sweep_step E A Continue c = Some c'"
    by (simp add: p x c'_def)
  have "length (resolved c') = n" by (simp add: c'_def n)
  from Suc.IH [OF this] obtain c1
    where "sweep_run E A (replicate n Continue) c' = Some c1" "resolved c1 = []"
      "pending c1 = pending c'" "finished c1 = finished c'"
    by blast
  moreover have "sweep_run E A (replicate (Suc n) Continue) c =
                 sweep_run E A (replicate n Continue) c'"
    by (simp only: replicate_Suc sweep_run.simps step option.case)
  moreover have "pending c' = pending c" "finished c' = finished c"
    by (simp_all add: c'_def)
  ultimately show ?case by simp
qed

lemma in_order_schedule_completes:
  "\<exists>c. sweep_run E A (in_order_schedule s) (sweep_start s) = Some c \<and> finished c"
proof -
  let ?n = "length (issued_checks s)"
  have "length (pending (sweep_start s)) = ?n" by (simp add: sweep_start_def)
  from resolve_all [OF this, of E A] obtain c1
    where 1: "sweep_run E A (replicate ?n (Resolve 0)) (sweep_start s) = Some c1"
      and p1: "pending c1 = []" and r1: "length (resolved c1) = ?n"
      and f1: "\<not> finished c1"
    by (auto simp: sweep_start_def)
  from continue_all [OF r1, of E A] p1 f1 obtain c2
    where 2: "sweep_run E A (replicate ?n Continue) c1 = Some c2"
      and e2: "resolved c2 = []" "pending c2 = []" "\<not> finished c2"
    by auto
  have 3: "sweep_run E A [Finish] c2 =
             Some (c2\<lparr>finished := True, pool := fire TransactionsReady (pool c2)\<rparr>)"
    using e2 by simp
  have "sweep_run E A (in_order_schedule s) (sweep_start s) =
          Some (c2\<lparr>finished := True, pool := fire TransactionsReady (pool c2)\<rparr>)"
    by (simp only: in_order_schedule_def sweep_run_append 1 2 3 option.case)
  then show ?thesis by simp
qed

lemma evictTransactions_logged: "logged (evictTransactions E A s) = logged s"
  by (simp add: evictTransactions_def fire_def evict_loop_traces)

lemma sweep_finished_pool:
  assumes wf: "wellformed s" and inv: "sweep_invariant E A s c" and f: "finished c"
  shows "awaiting c = {} \<and> pool c = evictTransactions E A s"
proof -
  from inv f have e: "pending c = []" "resolved c = []"
    unfolding sweep_invariant_def by blast+
  then have aw: "awaiting c = {}" by (simp add: awaiting_def)
  from inv have t: "transactions (pool c) =
          filter (\<lambda>e. fst e \<in> awaiting c \<or> \<not> invalidated E A (snd e)) (transactions s)"
    and k: "senderPubKeys (pool c) =
          senderPubKeys s -
          senderPubKey ` snd ` {e \<in> set (transactions s).
                                 fst e \<notin> awaiting c \<and> invalidated E A (snd e)}"
    and fi: "fired (pool c) = fired s @ (if finished c then [TransactionsReady] else [])"
    and lo: "logged (pool c) = logged s"
    unfolding sweep_invariant_def by blast+
  have t': "transactions (pool c) = transactions (evictTransactions E A s)"
    unfolding t aw evictTransactions_transactions [OF wf] by simp
  have "snd ` {e \<in> set (transactions s). invalidated E A (snd e)} =
        {t \<in> set (HashMap_values (transactions s)). invalidated E A t}"
    by (force simp: HashMap_values_def)
  then have k': "senderPubKeys (pool c) = senderPubKeys (evictTransactions E A s)"
    unfolding k aw evictTransactions_senderPubKeys [OF wf] by simp
  have f': "fired (pool c) = fired (evictTransactions E A s)"
    unfolding fi evictTransactions_fired using f by simp
  have l': "logged (pool c) = logged (evictTransactions E A s)"
    unfolding lo evictTransactions_logged ..
  from t' k' f' l' have "pool c = evictTransactions E A s"
    by (rule_tac mempool.equality) simp_all
  with aw show ?thesis ..
qed

lemma sweep_example:
  "sweep_run E0 A1 [Resolve 0, Continue] (sweep_start P12) =
     Some \<lparr>pending = [(2003, T2)], resolved = [], finished = False,
           pool = \<lparr>transactions = [(2003, T2)], senderPubKeys = {2},
                   fired = [TransactionAdded T1, TransactionAdded T2], logged = []\<rparr>\<rparr>"
  by (simp add: sweep_start_def issued_checks_def HashMap_keys_def HashMap_get_def
      verifyTransactionBalance_def evict_callback_def HashMap_remove_def HashSet_remove_def
      E0_def A1_def T1_def T2_def P12_def insert_Diff_if)

text \<open>
  Claim C7, as amended. In every configuration a sweep can reach, whatever the order in
  which the checks resolve, the pool has lost exactly the invalidated transactions whose
  own continuation has run, and the senders of those: a removal follows its own check,
  not the last one. The event is fired only once no check and no continuation is left,
  and the pool is then the one the sweep run to completion yields. A complete schedule
  exists: the one that resolves the checks in the order of issue.
\<close>

theorem sweep_removal_follows_own_check:
  assumes "wellformed s" and "sweep_run E A schedule (sweep_start s) = Some c"
  shows "transactions (pool c) =
           filter (\<lambda>e. fst e \<in> awaiting c \<or> \<not> invalidated E A (snd e)) (transactions s) \<and>
         senderPubKeys (pool c) =
           senderPubKeys s -
           senderPubKey ` snd ` {e \<in> set (transactions s).
                                  fst e \<notin> awaiting c \<and> invalidated E A (snd e)} \<and>
         fired (pool c) = fired s @ (if finished c then [TransactionsReady] else []) \<and>
         (finished c \<longrightarrow> awaiting c = {} \<and> pool c = evictTransactions E A s) \<and>
         (\<exists>c1. sweep_run E A (in_order_schedule s) (sweep_start s) = Some c1 \<and> finished c1)"
proof -
  have inv: "sweep_invariant E A s c"
    by (rule sweep_invariant_run [OF assms(1) sweep_invariant_start [OF assms(1)] assms(2)])
  then have "transactions (pool c) =
           filter (\<lambda>e. fst e \<in> awaiting c \<or> \<not> invalidated E A (snd e)) (transactions s)"
    and "senderPubKeys (pool c) =
           senderPubKeys s -
           senderPubKey ` snd ` {e \<in> set (transactions s).
                                  fst e \<notin> awaiting c \<and> invalidated E A (snd e)}"
    and "fired (pool c) = fired s @ (if finished c then [TransactionsReady] else [])"
    unfolding sweep_invariant_def by blast+
  moreover have "finished c \<longrightarrow> awaiting c = {} \<and> pool c = evictTransactions E A s"
    using sweep_finished_pool [OF assms(1) inv] by blast
  moreover note in_order_schedule_completes [of E A s]
  ultimately show ?thesis by blast
qed

theorem sweep_removal_follows_own_check_witness:
  "wellformed P12 \<and>
   sweep_run E0 A1 [Resolve 0, Continue] (sweep_start P12) =
     Some \<lparr>pending = [(2003, T2)], resolved = [], finished = False,
           pool = \<lparr>transactions = [(2003, T2)], senderPubKeys = {2},
                   fired = [TransactionAdded T1, TransactionAdded T2], logged = []\<rparr>\<rparr> \<and>
   (\<exists>c1. sweep_run E0 A1 (in_order_schedule P12) (sweep_start P12) = Some c1 \<and> finished c1)"
  using sweep_removal_follows_own_check [OF P12_wellformed sweep_example]
    P12_wellformed sweep_example
  by blast

text \<open>
  Claim C7, as stated: no removal before every check's outcome is known. It fails on the
  pool holding \<open>T1\<close> and \<open>T2\<close> when the ledger has moved past \<open>T1\<close>: the check of \<open>T1\<close>
  resolves, its continuation removes \<open>T1\<close> and its sender, and the check of \<open>T2\<close> is
  still pending.
\<close>

theorem removals_wait_for_all_checks_counterexample:
  "\<not> removals_wait_for_all_checks E0 A1 P12"
proof
  assume "removals_wait_for_all_checks E0 A1 P12"
  from this [unfolded removals_wait_for_all_checks_def, rule_format, OF sweep_example]
  have "[(2003, T2)] = transactions P12" by simp
  then show False by (simp add: P12_def)
qed

end
